theory Spec2Isabelle
  imports Complex_Main "HOL-Library.Word"
begin

unbundle bit_operations_syntax

section \<open>Data model\<close>

text \<open>
  The program of \<^verbatim>\<open>async_url_downloads.py\<close> downloads a batch of URLs, once
  through \<^verbatim>\<open>aiohttp\<close> (all requests in flight together) and once through
  \<^verbatim>\<open>requests\<close> (one request after the other).

  A Python \<^verbatim>\<open>bytes\<close>/\<^verbatim>\<open>bytearray\<close> is a list of octets; a Python \<^verbatim>\<open>str\<close> is a
  list of Unicode code points; a URL is an opaque string.
\<close>

type_synonym byte = "8 word"
type_synonym bytes = "byte list"
type_synonym str = "nat list"
type_synonym url = string

text \<open>The exceptions that can leave the functions of the module.\<close>

datatype error =
    ClientError string
  | ContentTypeError
  | JSONDecodeError
  | UnicodeDecodeError
  | CsvError
  | TypeError

text \<open>A decoded JSON document; a Python \<^verbatim>\<open>dict\<close> keeps its items in insertion order.\<close>

datatype json =
    JNull
  | JBool bool
  | JNum rat
  | JStr str
  | JList "json list"
  | JDict "(str \<times> json) list"

subsection \<open>The HTTP clients\<close>

text \<open>
  \<^verbatim>\<open>response.content\<close> of \<^verbatim>\<open>aiohttp\<close> is a stream reader. Its state is the list of
  data segments the transport still has to hand over, in order; a body is finite, and
  after its last segment the stream is at its end.

  \<^verbatim>\<open>await content.read(n)\<close> waits until data is there or the stream has ended, and
  returns at most \<open>n\<close> bytes of the data; it returns \<^verbatim>\<open>b''\<close> only at the end of
  the stream.
\<close>

type_synonym StreamReader = "bytes list"

fun read :: "nat \<Rightarrow> StreamReader \<Rightarrow> bytes \<times> StreamReader" where
  "read n [] = ([], [])"
| "read n (seg # segs) =
     (if seg = [] then read n segs
      else (take n seg, if length seg \<le> n then segs else drop n seg # segs))"

text \<open>
  An \<^verbatim>\<open>aiohttp\<close> response: \<open>ok\<close> is \<^verbatim>\<open>response.ok\<close>, \<open>content\<close> the body stream,
  and \<open>json\<close> what \<^verbatim>\<open>await response.json()\<close> evaluates to, the decoded document or
  the exception it raises.
\<close>

record ClientResponse =
  ok :: bool
  content :: StreamReader
  json :: "error + json"

text \<open>
  A \<^verbatim>\<open>requests\<close> response: \<open>resp_ok\<close> is \<^verbatim>\<open>response.ok\<close> and \<open>resp_content\<close> is
  \<^verbatim>\<open>response.content\<close>, the whole body.
\<close>

record Response =
  resp_ok :: bool
  resp_content :: bytes

text \<open>
  A session is the network as one client sees it: \<^verbatim>\<open>session.get(url)\<close> either raises
  a transport fault or yields a response. \<open>ClientSession\<close> is the \<^verbatim>\<open>aiohttp\<close> session,
  \<open>Session\<close> the one of \<^verbatim>\<open>requests\<close>.
\<close>

type_synonym ClientSession = "url \<Rightarrow> error + ClientResponse"
type_synonym Session = "url \<Rightarrow> error + Response"

section \<open>Response readers\<close>

text \<open>
  The loop of \<open>request_url_response_content\<close> and of \<open>request_url_csv_list\<close>:
  \<^verbatim>\<open>
  while True:
      chunk = await response.content.read(1024)
      b_array.extend(chunk)
      if not chunk:
          break
  \<close>
\<close>

definition segments_size :: "StreamReader \<Rightarrow> nat" where
  "segments_size s = length s + sum_list (map length s)"

lemma read_decreases:
  "read n s = (chunk, s') \<Longrightarrow> chunk \<noteq> [] \<Longrightarrow> segments_size s' < segments_size s"
proof (induction s arbitrary: chunk s')
  case Nil
  then show ?case by simp
next
  case (Cons seg segs)
  show ?case
  proof (cases "seg = []")
    case True
    with Cons.prems have "read n segs = (chunk, s')" by simp
    from Cons.IH [OF this Cons.prems(2)] show ?thesis
      by (simp add: segments_size_def)
  next
    case False
    with Cons.prems show ?thesis
      by (auto simp: segments_size_def split: if_splits)
  qed
qed

function read_loop :: "StreamReader \<Rightarrow> bytes \<Rightarrow> bytes" where
  "read_loop stream b_array =
     (case read 1024 stream of
        (chunk, stream') \<Rightarrow>
          (let b_array' = b_array @ chunk
           in if chunk = [] then b_array' else read_loop stream' b_array'))"
  by pat_completeness auto
termination
proof (relation "measure (\<lambda>(stream, b_array). segments_size stream)", goal_cases)
  case 1
  show ?case by simp
next
  case (2 stream b_array chunk stream')
  then have "read 1024 stream = (chunk, stream')" by simp
  from read_decreases [OF this] 2 show ?case by simp
qed

declare read_loop.simps [simp del]

definition request_url_response_content :: "ClientSession \<Rightarrow> url \<Rightarrow> error + bytes" where
  "request_url_response_content session url =
     (case session url of
        Inl e \<Rightarrow> Inl e
      | Inr response \<Rightarrow>
          if ok response then Inr (read_loop (content response) [])
          else Inr [])"

definition request_url_response_json :: "ClientSession \<Rightarrow> url \<Rightarrow> error + json" where
  "request_url_response_json session url =
     (case session url of
        Inl e \<Rightarrow> Inl e
      | Inr response \<Rightarrow>
          if ok response then json response
          else Inr (JDict []))"

subsection \<open>The standard library, as the row-table reader uses it\<close>

text \<open>
  \<^verbatim>\<open>b_array.decode('utf-8')\<close>: strict UTF-8. A lead byte fixes the length of a sequence
  and the range of its second byte (no overlong form, no surrogate, nothing above
  U+10FFFF); every other byte of the sequence is a continuation byte. Anything else
  raises \<^verbatim>\<open>UnicodeDecodeError\<close>.
\<close>

definition continuation :: "byte \<Rightarrow> bool" where
  "continuation b = (0x80 \<le> b \<and> b \<le> 0xBF)"

definition low_bits :: "byte \<Rightarrow> byte \<Rightarrow> nat" where
  "low_bits m b = unat (b AND m)"

definition second_of_three :: "byte \<Rightarrow> byte \<Rightarrow> bool" where
  "second_of_three b b1 =
     (if b = 0xE0 then 0xA0 \<le> b1 \<and> b1 \<le> 0xBF
      else if b = 0xED then 0x80 \<le> b1 \<and> b1 \<le> 0x9F
      else continuation b1)"

definition second_of_four :: "byte \<Rightarrow> byte \<Rightarrow> bool" where
  "second_of_four b b1 =
     (if b = 0xF0 then 0x90 \<le> b1 \<and> b1 \<le> 0xBF
      else if b = 0xF4 then 0x80 \<le> b1 \<and> b1 \<le> 0x8F
      else continuation b1)"

definition then_rest :: "'a \<Rightarrow> error + 'a list \<Rightarrow> error + 'a list" where
  "then_rest x r = (case r of Inl e \<Rightarrow> Inl e | Inr xs \<Rightarrow> Inr (x # xs))"

fun utf8_decode :: "bytes \<Rightarrow> error + str" where
  "utf8_decode [] = Inr []"
| "utf8_decode (b # bs) =
     (if b < 0x80 then then_rest (unat b) (utf8_decode bs)
      else if 0xC2 \<le> b \<and> b \<le> 0xDF then
        (case bs of
           b1 # bs' \<Rightarrow>
             if continuation b1
             then then_rest (low_bits 0x1F b * 64 + low_bits 0x3F b1) (utf8_decode bs')
             else Inl UnicodeDecodeError
         | _ \<Rightarrow> Inl UnicodeDecodeError)
      else if 0xE0 \<le> b \<and> b \<le> 0xEF then
        (case bs of
           b1 # b2 # bs' \<Rightarrow>
             if second_of_three b b1 \<and> continuation b2
             then then_rest
                    (low_bits 0x0F b * 4096 + low_bits 0x3F b1 * 64 + low_bits 0x3F b2)
                    (utf8_decode bs')
             else Inl UnicodeDecodeError
         | _ \<Rightarrow> Inl UnicodeDecodeError)
      else if 0xF0 \<le> b \<and> b \<le> 0xF4 then
        (case bs of
           b1 # b2 # b3 # bs' \<Rightarrow>
             if second_of_four b b1 \<and> continuation b2 \<and> continuation b3
             then then_rest
                    (low_bits 0x07 b * 262144 + low_bits 0x3F b1 * 4096
                       + low_bits 0x3F b2 * 64 + low_bits 0x3F b3)
                    (utf8_decode bs')
             else Inl UnicodeDecodeError
         | _ \<Rightarrow> Inl UnicodeDecodeError)
      else Inl UnicodeDecodeError)"

text \<open>
  \<^verbatim>\<open>decoded_content.splitlines()\<close>: the text is cut at every line boundary, the
  boundaries are dropped, \<^verbatim>\<open>\r\n\<close> counts as one boundary, and a boundary at the very
  end opens no further line. \<open>cur\<close> is the line read so far.
\<close>

definition linebreak :: "nat \<Rightarrow> bool" where
  "linebreak c = (c \<in> {0x0A, 0x0B, 0x0C, 0x0D, 0x1C, 0x1D, 0x1E, 0x85, 0x2028, 0x2029})"

fun splitlines_from :: "str \<Rightarrow> str \<Rightarrow> str list" where
  "splitlines_from cur [] = (if cur = [] then [] else [cur])"
| "splitlines_from cur (c # cs) =
     (if c = 0x0D then
        (case cs of
           d # ds \<Rightarrow>
             if d = 0x0A then cur # splitlines_from [] ds
             else cur # splitlines_from [] cs
         | [] \<Rightarrow> [cur])
      else if linebreak c then cur # splitlines_from [] cs
      else splitlines_from (cur @ [c]) cs)"

definition splitlines :: "str \<Rightarrow> str list" where
  "splitlines s = splitlines_from [] s"

text \<open>
  \<^verbatim>\<open>csv.reader(lines, delimiter=delimiter)\<close> in the default dialect (\<^verbatim>\<open>excel\<close>): quote
  character \<^verbatim>\<open>"\<close>, a doubled quote inside a quoted field stands for one quote, no
  escape character, initial spaces kept, not strict. The reader is the state machine of
  the \<^verbatim>\<open>_csv\<close> module; the states for an escape character cannot be reached and are
  left out. A character is \<open>Some c\<close>; \<open>None\<close> is the end of the line.
\<close>

datatype ParserState =
    START_RECORD
  | START_FIELD
  | IN_FIELD
  | IN_QUOTED_FIELD
  | QUOTE_IN_QUOTED_FIELD
  | EAT_CRNL

record Reader =
  state :: ParserState
  record_fields :: "str list"
  field :: str

definition quotechar :: nat where
  "quotechar = 0x22"

definition field_limit :: nat where
  "field_limit = 131072"

definition parse_reset :: Reader where
  "parse_reset = \<lparr>state = START_RECORD, record_fields = [], field = []\<rparr>"

definition parse_save_field :: "Reader \<Rightarrow> Reader" where
  "parse_save_field r = r\<lparr>record_fields := record_fields r @ [field r], field := []\<rparr>"

definition parse_add_char :: "Reader \<Rightarrow> nat \<Rightarrow> error + Reader" where
  "parse_add_char r c =
     (if field_limit \<le> length (field r) then Inl CsvError
      else Inr (r\<lparr>field := field r @ [c]\<rparr>))"

definition newline_or_eol :: "nat option \<Rightarrow> bool" where
  "newline_or_eol c = (c = Some 0x0A \<or> c = Some 0x0D \<or> c = None)"

definition after_line :: "nat option \<Rightarrow> ParserState" where
  "after_line c = (if c = None then START_RECORD else EAT_CRNL)"

definition start_field :: "nat \<Rightarrow> Reader \<Rightarrow> nat option \<Rightarrow> error + Reader" where
  "start_field delimiter r c =
     (if newline_or_eol c then Inr ((parse_save_field r)\<lparr>state := after_line c\<rparr>)
      else if c = Some quotechar then Inr (r\<lparr>state := IN_QUOTED_FIELD\<rparr>)
      else if c = Some delimiter then Inr (parse_save_field r)
      else (case parse_add_char r (the c) of
              Inl e \<Rightarrow> Inl e
            | Inr r' \<Rightarrow> Inr (r'\<lparr>state := IN_FIELD\<rparr>)))"

definition parse_process_char :: "nat \<Rightarrow> Reader \<Rightarrow> nat option \<Rightarrow> error + Reader" where
  "parse_process_char delimiter r c =
     (case state r of
        START_RECORD \<Rightarrow>
          if c = None then Inr r
          else if c = Some 0x0A \<or> c = Some 0x0D then Inr (r\<lparr>state := EAT_CRNL\<rparr>)
          else start_field delimiter (r\<lparr>state := START_FIELD\<rparr>) c
      | START_FIELD \<Rightarrow> start_field delimiter r c
      | IN_FIELD \<Rightarrow>
          if newline_or_eol c then Inr ((parse_save_field r)\<lparr>state := after_line c\<rparr>)
          else if c = Some delimiter then Inr ((parse_save_field r)\<lparr>state := START_FIELD\<rparr>)
          else parse_add_char r (the c)
      | IN_QUOTED_FIELD \<Rightarrow>
          if c = None then Inr r
          else if c = Some quotechar then Inr (r\<lparr>state := QUOTE_IN_QUOTED_FIELD\<rparr>)
          else parse_add_char r (the c)
      | QUOTE_IN_QUOTED_FIELD \<Rightarrow>
          if c = Some quotechar then
            (case parse_add_char r (the c) of
               Inl e \<Rightarrow> Inl e
             | Inr r' \<Rightarrow> Inr (r'\<lparr>state := IN_QUOTED_FIELD\<rparr>))
          else if c = Some delimiter then Inr ((parse_save_field r)\<lparr>state := START_FIELD\<rparr>)
          else if newline_or_eol c then Inr ((parse_save_field r)\<lparr>state := after_line c\<rparr>)
          else (case parse_add_char r (the c) of
                  Inl e \<Rightarrow> Inl e
                | Inr r' \<Rightarrow> Inr (r'\<lparr>state := IN_FIELD\<rparr>))
      | EAT_CRNL \<Rightarrow>
          if c = Some 0x0A \<or> c = Some 0x0D then Inr r
          else if c = None then Inr (r\<lparr>state := START_RECORD\<rparr>)
          else Inl CsvError)"

text \<open>One line of the input: its characters, then the end of the line.\<close>

fun parse_line :: "nat \<Rightarrow> Reader \<Rightarrow> str \<Rightarrow> error + Reader" where
  "parse_line delimiter r [] = parse_process_char delimiter r None"
| "parse_line delimiter r (c # cs) =
     (case parse_process_char delimiter r (Some c) of
        Inl e \<Rightarrow> Inl e
      | Inr r' \<Rightarrow> parse_line delimiter r' cs)"

text \<open>
  \<^verbatim>\<open>list(cr)\<close>: the reader takes lines until a record is complete, starts the next
  record from a reset parser, and at the end of the input gives a last record when a
  field is under way or a quoted field is open. \<open>rows\<close> are the records so far.
\<close>

fun reader_rows :: "nat \<Rightarrow> Reader \<Rightarrow> str list \<Rightarrow> str list list \<Rightarrow> error + str list list" where
  "reader_rows delimiter r [] rows =
     (if field r \<noteq> [] \<or> state r = IN_QUOTED_FIELD
      then Inr (rows @ [record_fields (parse_save_field r)])
      else Inr rows)"
| "reader_rows delimiter r (line # lines) rows =
     (case parse_line delimiter r line of
        Inl e \<Rightarrow> Inl e
      | Inr r' \<Rightarrow>
          if state r' = START_RECORD
          then reader_rows delimiter parse_reset lines (rows @ [record_fields r'])
          else reader_rows delimiter r' lines rows)"

text \<open>
  The delimiter of a dialect is one character; \<^verbatim>\<open>csv.reader\<close> raises \<^verbatim>\<open>TypeError\<close>
  for any other string.
\<close>

definition csv_reader_list :: "str list \<Rightarrow> str \<Rightarrow> error + str list list" where
  "csv_reader_list lines delimiter =
     (case delimiter of
        [d] \<Rightarrow> reader_rows d parse_reset lines []
      | _ \<Rightarrow> Inl TypeError)"

subsection \<open>The row-table reader\<close>

definition default_delimiter :: str where
  "default_delimiter = [0x2C]"

definition request_url_csv_list :: "ClientSession \<Rightarrow> url \<Rightarrow> str \<Rightarrow> error + str list list" where
  "request_url_csv_list session url delimiter =
     (case session url of
        Inl e \<Rightarrow> Inl e
      | Inr response \<Rightarrow>
          if ok response then
            (let b_array = read_loop (content response) []
             in case utf8_decode b_array of
                  Inl e \<Rightarrow> Inl e
                | Inr decoded_content \<Rightarrow>
                    csv_reader_list (splitlines decoded_content) delimiter)
          else Inr [[[]]])"

section \<open>The batch dispatcher\<close>

text \<open>
  The event loop of \<^verbatim>\<open>asyncio\<close> runs the tasks of a batch interleaved on one thread. A
  task shares nothing with the others but the session, which it only reads, so its
  outcome is what its coroutine computes; what the interleaving decides is the order in
  which the tasks complete. A completion order is a list of task indices, the first
  task to complete first.

  \<^verbatim>\<open>asyncio.gather(*tasks)\<close> keeps one slot per task, in the order of its arguments.
  A task that completes stores its result in its own slot; the first task that raises
  makes \<^verbatim>\<open>gather\<close> raise that exception at once; when every slot is filled,
  \<^verbatim>\<open>gather\<close> returns the slots as a list. While a task has neither returned nor
  raised, \<^verbatim>\<open>gather\<close> does not return: that is \<open>None\<close>.
\<close>

fun run_tasks :: "(error + 'a) list \<Rightarrow> nat list \<Rightarrow> 'a option list \<Rightarrow> error + 'a option list" where
  "run_tasks tasks [] slots = Inr slots"
| "run_tasks tasks (i # order) slots =
     (if i < length tasks then
        (case tasks ! i of
           Inl e \<Rightarrow> Inl e
         | Inr result \<Rightarrow> run_tasks tasks order (slots[i := Some result]))
      else run_tasks tasks order slots)"

definition gather :: "nat list \<Rightarrow> (error + 'a) list \<Rightarrow> (error + 'a list) option" where
  "gather order tasks =
     (case run_tasks tasks order (replicate (length tasks) None) of
        Inl e \<Rightarrow> Some (Inl e)
      | Inr slots \<Rightarrow> map_option Inr (those slots))"

text \<open>Every one of the \<open>n\<close> tasks completes, once.\<close>

definition completion_order :: "nat list \<Rightarrow> nat \<Rightarrow> bool" where
  "completion_order order n = (distinct order \<and> set order = {0..<n})"

text \<open>
  \<open>session\<close> is the network that the \<^verbatim>\<open>aiohttp.ClientSession()\<close> of the call meets and
  \<open>order\<close> the completion order of its tasks. The extra arguments
  (\<^verbatim>\<open>*args, **kwargs\<close>) are those that \<open>request_url\<close> is already applied to.
\<close>

definition request_url_responses ::
  "ClientSession \<Rightarrow> nat list \<Rightarrow> url list \<Rightarrow> (ClientSession \<Rightarrow> url \<Rightarrow> error + 'a)
     \<Rightarrow> (error + 'a list) option" where
  "request_url_responses session order urls request_url =
     (let tasks = map (\<lambda>url. request_url session url) urls;
          results = gather order tasks
      in results)"

section \<open>The two runners\<close>

text \<open>
  \<^verbatim>\<open>
  downloads = []
  for url in urls:
      with requests.Session() as s:
          with s.get(url) as response:
              if response.ok:
                  downloads.append(bytearray(response.content))
  return downloads
  \<close>
\<close>

fun sequential_loop :: "Session \<Rightarrow> url list \<Rightarrow> bytes list \<Rightarrow> error + bytes list" where
  "sequential_loop s [] downloads = Inr downloads"
| "sequential_loop s (url # urls) downloads =
     (case s url of
        Inl e \<Rightarrow> Inl e
      | Inr response \<Rightarrow>
          if resp_ok response
          then sequential_loop s urls (downloads @ [resp_content response])
          else sequential_loop s urls downloads)"

definition sequential_downloads :: "Session \<Rightarrow> url list \<Rightarrow> error + bytes list" where
  "sequential_downloads s urls = sequential_loop s urls []"

definition asynchronous_downloads ::
  "ClientSession \<Rightarrow> nat list \<Rightarrow> url list \<Rightarrow> (error + bytes list) option" where
  "asynchronous_downloads session order urls =
     request_url_responses session order urls request_url_response_content"

section \<open>Notions of the specification\<close>

text \<open>
  The chunks that successive calls of \<^verbatim>\<open>read(n)\<close> return, up to the zero-byte read
  that reports the end of the stream.
\<close>

function chunks_until_eof :: "nat \<Rightarrow> StreamReader \<Rightarrow> bytes list" where
  "chunks_until_eof n stream =
     (case read n stream of
        (chunk, stream') \<Rightarrow>
          if chunk = [] then [] else chunk # chunks_until_eof n stream')"
  by pat_completeness auto
termination
proof (relation "measure (\<lambda>(n, stream). segments_size stream)", goal_cases)
  case 1
  show ?case by simp
next
  case (2 n stream chunk stream')
  then have "read n stream = (chunk, stream')" by simp
  from read_decreases [OF this] 2 show ?case by simp
qed

declare chunks_until_eof.simps [simp del]

text \<open>The Python \<^verbatim>\<open>str\<close> with the characters of a string literal.\<close>

definition py :: "string \<Rightarrow> str" where
  "py s = map of_char s"

section \<open>Properties of the parts\<close>

lemma read_concat: "read n s = (chunk, s') \<Longrightarrow> chunk @ concat s' = concat s"
  by (induction s arbitrary: chunk s') (auto split: if_splits)

lemma read_empty: "0 < n \<Longrightarrow> read n s = ([], s') \<Longrightarrow> concat s = []"
  by (induction s arbitrary: s') (auto split: if_splits)

lemma read_loop_concat: "read_loop stream b_array = b_array @ concat stream"
proof (induction stream b_array rule: read_loop.induct)
  case (1 stream b_array)
  obtain chunk stream' where r: "read 1024 stream = (chunk, stream')"
    by (cases "read 1024 stream")
  show ?case
  proof (cases "chunk = []")
    case True
    with r have "read 1024 stream = ([], stream')" by simp
    from read_empty [OF _ this] have "concat stream = []" by simp
    with r True show ?thesis by (subst read_loop.simps) simp
  next
    case False
    from "1.IH" [OF r [symmetric] refl False]
    have "read_loop stream' (b_array @ chunk) = (b_array @ chunk) @ concat stream'" .
    with r False read_concat [OF r] show ?thesis
      by (subst read_loop.simps) simp
  qed
qed

lemma chunks_until_eof_concat: "0 < n \<Longrightarrow> concat (chunks_until_eof n stream) = concat stream"
proof (induction n stream rule: chunks_until_eof.induct)
  case (1 n stream)
  obtain chunk stream' where r: "read n stream = (chunk, stream')"
    by (cases "read n stream")
  show ?case
  proof (cases "chunk = []")
    case True
    with r have "read n stream = ([], stream')" by simp
    from read_empty [OF "1.prems" this] have "concat stream = []" .
    with r True show ?thesis by (subst chunks_until_eof.simps) simp
  next
    case False
    from "1.IH" [OF r [symmetric] False "1.prems"]
    have "concat (chunks_until_eof n stream') = concat stream'" .
    with r False read_concat [OF r] show ?thesis
      by (subst chunks_until_eof.simps) simp
  qed
qed

lemma those_map_Some: "those (map Some xs) = Some xs"
  by (induction xs) simp_all

lemma run_tasks_Inr:
  "\<forall>i\<in>set order. i < length tasks \<and> (\<exists>v. tasks ! i = Inr v) \<Longrightarrow>
   \<exists>slots'. run_tasks tasks order slots = Inr slots' \<and> length slots' = length slots \<and>
     (\<forall>j<length slots. slots' ! j = (if j \<in> set order then Some (projr (tasks ! j)) else slots ! j))"
proof (induction order arbitrary: slots)
  case Nil
  then show ?case by simp
next
  case (Cons i order)
  from Cons.prems obtain v where i: "i < length tasks" "tasks ! i = Inr v" by auto
  from Cons.prems have "\<forall>i\<in>set order. i < length tasks \<and> (\<exists>v. tasks ! i = Inr v)" by simp
  from Cons.IH [OF this, of "slots[i := Some v]"] obtain slots' where
    s: "run_tasks tasks order (slots[i := Some v]) = Inr slots'" "length slots' = length slots"
      "\<forall>j<length slots. slots' ! j = (if j \<in> set order then Some (projr (tasks ! j)) else slots[i := Some v] ! j)"
    by auto
  from i s(1) have "run_tasks tasks (i # order) slots = Inr slots'" by simp
  moreover from s(3) i have "\<forall>j<length slots. slots' ! j = (if j \<in> set (i # order) then Some (projr (tasks ! j)) else slots ! j)"
    by (auto simp: nth_list_update)
  ultimately show ?case using s(2) by blast
qed

lemma gather_Inr:
  assumes "completion_order order (length tasks)" and "\<forall>t\<in>set tasks. \<exists>v. t = Inr v"
  shows "gather order tasks = Some (Inr (map projr tasks))"
proof -
  from assms have "\<forall>i\<in>set order. i < length tasks \<and> (\<exists>v. tasks ! i = Inr v)"
    by (auto simp: completion_order_def)
  from run_tasks_Inr [OF this, of "replicate (length tasks) None"] obtain slots' where
    s: "run_tasks tasks order (replicate (length tasks) None) = Inr slots'"
      "length slots' = length tasks"
      "\<forall>j<length tasks. slots' ! j = (if j \<in> set order then Some (projr (tasks ! j)) else replicate (length tasks) None ! j)"
    by auto
  from s(2,3) assms(1) have "slots' = map Some (map projr tasks)"
    by (intro nth_equalityI) (auto simp: completion_order_def)
  then have "those slots' = Some (map projr tasks)"
    by (simp only: those_map_Some)
  with s(1) show ?thesis by (simp add: gather_def)
qed

lemma run_tasks_Inl:
  "i \<in> set order \<Longrightarrow> i < length tasks \<Longrightarrow> tasks ! i = Inl e \<Longrightarrow>
   \<exists>j e'. find (\<lambda>k. k < length tasks \<and> isl (tasks ! k)) order = Some j \<and> tasks ! j = Inl e' \<and>
     run_tasks tasks order slots = Inl e'"
proof (induction order arbitrary: slots)
  case Nil
  then show ?case by simp
next
  case (Cons k order)
  show ?case
  proof (cases "k < length tasks \<and> isl (tasks ! k)")
    case True
    then obtain e' where "tasks ! k = Inl e'" by (cases "tasks ! k") auto
    with True show ?thesis by simp
  next
    case False
    with Cons.prems have "i \<in> set order" by auto
    from Cons.IH [OF this Cons.prems(2,3)] False show ?thesis
      by (cases "tasks ! k") auto
  qed
qed

lemma sequential_loop_filter:
  "\<forall>url\<in>set urls. \<exists>response. s url = Inr response \<Longrightarrow>
   sequential_loop s urls downloads =
     Inr (downloads @ map (\<lambda>url. resp_content (projr (s url)))
                        (filter (\<lambda>url. resp_ok (projr (s url))) urls))"
  by (induction urls arbitrary: downloads) auto

lemma request_url_responses_Inr:
  assumes "completion_order order (length urls)"
    and "\<forall>url\<in>set urls. \<exists>v. request_url session url = Inr v"
  shows "request_url_responses session order urls request_url =
           Some (Inr (map (\<lambda>url. projr (request_url session url)) urls))"
proof -
  let ?tasks = "map (\<lambda>url. request_url session url) urls"
  from assms(1) have "completion_order order (length ?tasks)" by simp
  moreover from assms(2) have "\<forall>t\<in>set ?tasks. \<exists>v. t = Inr v" by auto
  ultimately have "gather order ?tasks = Some (Inr (map projr ?tasks))"
    by (rule gather_Inr)
  then show ?thesis by (simp add: request_url_responses_def comp_def)
qed

section \<open>The claims\<close>

text \<open>
  C1. The result list of the dispatcher is in the order of the input: whatever the order
  in which the tasks complete, when every task returns, the dispatcher returns a list
  with one entry per URL, and the entry at index \<open>i\<close> is what the processing function
  returns for \<open>urls ! i\<close>.
\<close>

theorem request_url_responses_input_order:
  assumes "completion_order order (length urls)"
    and "\<forall>url\<in>set urls. \<exists>v. request_url session url = Inr v"
  shows "\<exists>results. request_url_responses session order urls request_url = Some (Inr results)
           \<and> length results = length urls
           \<and> (\<forall>i<length urls. request_url session (urls ! i) = Inr (results ! i))"
proof -
  let ?results = "map (\<lambda>url. projr (request_url session url)) urls"
  have "request_url_responses session order urls request_url = Some (Inr ?results)"
    using assms by (rule request_url_responses_Inr)
  moreover have "\<forall>i<length urls. request_url session (urls ! i) = Inr (?results ! i)"
  proof (intro allI impI)
    fix i assume "i < length urls"
    with assms(2) obtain v where "request_url session (urls ! i) = Inr v"
      using nth_mem by blast
    with \<open>i < length urls\<close> show "request_url session (urls ! i) = Inr (?results ! i)"
      by simp
  qed
  ultimately show ?thesis by (intro exI [of _ ?results]) simp
qed

theorem request_url_responses_input_order_witness:
  "completion_order [2, 0, 1] (length [''u'', ''v'', ''w''])
   \<and> (\<exists>results.
         request_url_responses
           (\<lambda>url. Inr \<lparr>ok = (url \<noteq> ''v''), content = [[of_char (hd url)]], json = Inr JNull\<rparr>)
           [2, 0, 1] [''u'', ''v'', ''w''] request_url_response_content = Some (Inr results)
         \<and> length results = 3
         \<and> results ! 0 = [0x75] \<and> results ! 1 = [] \<and> results ! 2 = [0x77])"
proof -
  let ?session = "\<lambda>url. Inr \<lparr>ok = (url \<noteq> ''v''), content = [[of_char (hd url)]], json = Inr JNull\<rparr>"
  have order: "completion_order [2, 0, 1] (length [''u'', ''v'', ''w''])"
    by (auto simp: completion_order_def)
  have ok: "\<forall>url\<in>set [''u'', ''v'', ''w'']. \<exists>v. request_url_response_content ?session url = Inr v"
    by (simp add: request_url_response_content_def)
  have c: "request_url_response_content ?session ''u'' = Inr [0x75]"
      "request_url_response_content ?session ''v'' = Inr []"
      "request_url_response_content ?session ''w'' = Inr [0x77]"
    by (simp_all add: request_url_response_content_def read_loop_concat)
  from request_url_responses_input_order
         [where request_url = request_url_response_content and session = ?session,
          OF order ok]
  obtain results where
    r: "request_url_responses ?session [2, 0, 1] [''u'', ''v'', ''w'']
          request_url_response_content = Some (Inr results)"
      "length results = length [''u'', ''v'', ''w'']"
      "\<forall>i<length [''u'', ''v'', ''w''].
         request_url_response_content ?session ([''u'', ''v'', ''w''] ! i) = Inr (results ! i)"
    by blast
  from r(3) [rule_format, of 0] r(3) [rule_format, of 1] r(3) [rule_format, of 2] c
  have "results ! 0 = [0x75] \<and> results ! 1 = [] \<and> results ! 2 = [0x77]"
    by simp
  with r(1,2) order show ?thesis by simp
qed

text \<open>
  C2. The result list of the dispatcher has exactly one entry per input URL: when the
  processing function returns a value for every URL of the batch, the dispatcher
  returns a list as long as the URL list. Nothing is asked of the HTTP statuses: a URL
  answered with a non-success status, for which a reader returns its empty value, has
  its entry like any other.
\<close>

theorem request_url_responses_length:
  assumes "completion_order order (length urls)"
    and "\<forall>url\<in>set urls. \<exists>v. request_url session url = Inr v"
  shows "\<exists>results. request_url_responses session order urls request_url = Some (Inr results)
           \<and> length results = length urls"
  using request_url_responses_Inr
          [where request_url = request_url and session = session, OF assms]
  by simp

theorem request_url_responses_length_witness:
  "completion_order [1, 2, 0] (length [''u'', ''v'', ''v''])
   \<and> \<not> ok \<lparr>ok = (''v'' = ''u''), content = [[1, 2], [3]], json = Inr JNull\<rparr>
   \<and> request_url_response_content
         (\<lambda>url. Inr \<lparr>ok = (url = ''u''), content = [[1, 2], [3]], json = Inr JNull\<rparr>) ''v''
       = Inr []
   \<and> (\<exists>results.
         request_url_responses
           (\<lambda>url. Inr \<lparr>ok = (url = ''u''), content = [[1, 2], [3]], json = Inr JNull\<rparr>)
           [1, 2, 0] [''u'', ''v'', ''v''] request_url_response_content = Some (Inr results)
         \<and> length results = length [''u'', ''v'', ''v''])"
proof -
  let ?session = "\<lambda>url. Inr \<lparr>ok = (url = ''u''), content = [[1, 2], [3]], json = Inr JNull\<rparr>"
  have order: "completion_order [1, 2, 0] (length [''u'', ''v'', ''v''])"
    by (auto simp: completion_order_def)
  have returns: "\<forall>url\<in>set [''u'', ''v'', ''v'']. \<exists>v. request_url_response_content ?session url = Inr v"
    by (simp add: request_url_response_content_def)
  from request_url_responses_length
         [where request_url = request_url_response_content and session = ?session,
          OF order returns] order
  show ?thesis by (simp add: request_url_response_content_def)
qed

text \<open>
  C3. On a response with a non-success status no reader raises: the byte-content reader
  returns the empty buffer, the structured reader the empty mapping, and the row-table
  reader, whatever its delimiter, the table of one row with one empty field.
\<close>

theorem readers_empty_on_failure:
  assumes "session url = Inr response" and "\<not> ok response"
  shows "request_url_response_content session url = Inr []
       \<and> request_url_response_json session url = Inr (JDict [])
       \<and> request_url_csv_list session url delimiter = Inr [[[]]]"
  using assms
  by (simp add: request_url_response_content_def request_url_response_json_def
        request_url_csv_list_def)

theorem readers_empty_on_failure_witness:
  "\<not> ok \<lparr>ok = False, content = [[0x4E, 0x6F]], json = Inl ContentTypeError\<rparr>
   \<and> request_url_response_content
         (\<lambda>url. Inr \<lparr>ok = False, content = [[0x4E, 0x6F]], json = Inl ContentTypeError\<rparr>) ''u''
       = Inr []
   \<and> request_url_response_json
         (\<lambda>url. Inr \<lparr>ok = False, content = [[0x4E, 0x6F]], json = Inl ContentTypeError\<rparr>) ''u''
       = Inr (JDict [])
   \<and> request_url_csv_list
         (\<lambda>url. Inr \<lparr>ok = False, content = [[0x4E, 0x6F]], json = Inl ContentTypeError\<rparr>) ''u''
         default_delimiter
       = Inr [[[]]]"
  using readers_empty_on_failure
          [of "\<lambda>url. Inr \<lparr>ok = False, content = [[0x4E, 0x6F]], json = Inl ContentTypeError\<rparr>"
              "''u''" "\<lparr>ok = False, content = [[0x4E, 0x6F]], json = Inl ContentTypeError\<rparr>"
              default_delimiter]
  by simp

text \<open>
  C4. When the processing function raises for some URL of the batch, the dispatcher
  returns no list: it raises the exception of the task that is the first to fail in the
  completion order. When the tasks that fail all raise the same exception, that is the
  exception the caller gets.
\<close>

theorem request_url_responses_fail_fast:
  assumes "completion_order order (length urls)"
    and "i < length urls"
    and "request_url session (urls ! i) = Inl e"
  shows "(\<exists>j<length urls. \<exists>e'.
            find (\<lambda>k. k < length urls \<and> isl (request_url session (urls ! k))) order = Some j
          \<and> request_url session (urls ! j) = Inl e'
          \<and> request_url_responses session order urls request_url = Some (Inl e'))
       \<and> ((\<forall>k<length urls. \<forall>e'. request_url session (urls ! k) = Inl e' \<longrightarrow> e' = e)
            \<longrightarrow> request_url_responses session order urls request_url = Some (Inl e))"
proof -
  let ?tasks = "map (\<lambda>url. request_url session url) urls"
  let ?slots = "replicate (length ?tasks) None :: 'a option list"
  from assms have "i \<in> set order" "i < length ?tasks" "?tasks ! i = Inl e"
    by (simp_all add: completion_order_def)
  from run_tasks_Inl [OF this, of ?slots] obtain j e' where
    j: "find (\<lambda>k. k < length ?tasks \<and> isl (?tasks ! k)) order = Some j"
       "?tasks ! j = Inl e'" "run_tasks ?tasks order ?slots = Inl e'"
    by blast
  from j(1) have "j \<in> set order" by (auto simp: find_Some_iff)
  with assms(1) have jlt: "j < length urls" by (simp add: completion_order_def)
  have "(\<lambda>k. k < length ?tasks \<and> isl (?tasks ! k))
          = (\<lambda>k. k < length urls \<and> isl (request_url session (urls ! k)))"
    by (rule ext) auto
  with j(1) have f: "find (\<lambda>k. k < length urls \<and> isl (request_url session (urls ! k))) order = Some j"
    by simp
  from j(2) jlt have e': "request_url session (urls ! j) = Inl e'" by simp
  from j(3) have r: "request_url_responses session order urls request_url = Some (Inl e')"
    by (simp add: request_url_responses_def gather_def)
  from f e' r jlt show ?thesis by auto
qed

theorem request_url_responses_fail_fast_witness:
  "completion_order [2, 0, 1] (length [''u'', ''v'', ''w''])
   \<and> (1::nat) < length [''u'', ''v'', ''w'']
   \<and> request_url_response_content
         (\<lambda>url. if url = ''v'' then Inl (ClientError ''refused'')
                 else Inr \<lparr>ok = True, content = [[1]], json = Inr JNull\<rparr>)
         ([''u'', ''v'', ''w''] ! 1) = Inl (ClientError ''refused'')
   \<and> request_url_responses
         (\<lambda>url. if url = ''v'' then Inl (ClientError ''refused'')
                 else Inr \<lparr>ok = True, content = [[1]], json = Inr JNull\<rparr>)
         [2, 0, 1] [''u'', ''v'', ''w''] request_url_response_content
       = Some (Inl (ClientError ''refused''))"
proof -
  let ?session = "\<lambda>url. if url = ''v'' then Inl (ClientError ''refused'')
                       else Inr \<lparr>ok = True, content = [[1]], json = Inr JNull\<rparr>"
  let ?urls = "[''u'', ''v'', ''w'']"
  have order: "completion_order [2, 0, 1] (length ?urls)"
    by (auto simp: completion_order_def)
  have i: "(1::nat) < length ?urls" by simp
  have raises: "request_url_response_content ?session (?urls ! 1) = Inl (ClientError ''refused'')"
    by (simp add: request_url_response_content_def)
  have only: "\<forall>k<length ?urls. \<forall>e'. request_url_response_content ?session (?urls ! k) = Inl e'
                \<longrightarrow> e' = ClientError ''refused''"
    by (auto simp: request_url_response_content_def nth_Cons' split: if_splits)
  from request_url_responses_fail_fast
         [where request_url = request_url_response_content and session = ?session,
          OF order i raises] only
  have "request_url_responses ?session [2, 0, 1] ?urls request_url_response_content
          = Some (Inl (ClientError ''refused''))"
    by blast
  with order i raises show ?thesis by blast
qed

text \<open>
  C5. When every request of the sequential runner is answered, the runner returns the
  bodies of the successful responses only, in the order of the input: a response with a
  non-success status leaves no entry, so the output is shorter than the input by the
  number of failing requests.
\<close>

theorem sequential_downloads_drops_failures:
  assumes "\<forall>url\<in>set urls. \<exists>response. s url = Inr response"
  shows "\<exists>downloads. sequential_downloads s urls = Inr downloads
           \<and> downloads = map (\<lambda>url. resp_content (projr (s url)))
                              (filter (\<lambda>url. resp_ok (projr (s url))) urls)
           \<and> length downloads
               = length urls - length (filter (\<lambda>url. \<not> resp_ok (projr (s url))) urls)"
proof -
  let ?ok = "\<lambda>url. resp_ok (projr (s url))"
  let ?downloads = "map (\<lambda>url. resp_content (projr (s url))) (filter ?ok urls)"
  from sequential_loop_filter [OF assms, of "[]"]
  have "sequential_downloads s urls = Inr ?downloads"
    by (simp add: sequential_downloads_def)
  moreover have "length (filter ?ok urls) + length (filter (\<lambda>url. \<not> ?ok url) urls) = length urls"
    by (rule sum_length_filter_compl)
  then have "length ?downloads = length urls - length (filter (\<lambda>url. \<not> ?ok url) urls)"
    by simp
  ultimately show ?thesis by blast
qed

theorem sequential_downloads_drops_failures_witness:
  "sequential_downloads
         (\<lambda>url. Inr \<lparr>resp_ok = (url \<noteq> ''v''), resp_content = [of_char (hd url)]\<rparr>)
         [''u'', ''v'', ''w'', ''v'']
       = Inr [[0x75], [0x77]]
   \<and> length [[0x75 :: byte], [0x77]] = length [''u'', ''v'', ''w'', ''v''] - 2"
proof -
  let ?s = "\<lambda>url. Inr \<lparr>resp_ok = (url \<noteq> ''v''), resp_content = [of_char (hd url)]\<rparr>"
  have answered: "\<forall>url\<in>set [''u'', ''v'', ''w'', ''v'']. \<exists>response. ?s url = Inr response"
    by simp
  from sequential_downloads_drops_failures [of "[''u'', ''v'', ''w'', ''v'']" ?s, OF answered]
  show ?thesis by simp
qed

text \<open>
  C6. Fifty requests to one URL, each answered with success and the same body: the list
  of the sequential runner and the list of the concurrent runner are equal, entry by
  entry, whatever the order in which the concurrent tasks complete and however the
  transport cuts the body into segments.
\<close>

theorem fifty_requests_equal:
  assumes "completion_order order 50"
    and "s url = Inr r" and "resp_ok r" and "resp_content r = body"
    and "session url = Inr response" and "ok response"
    and "concat (content response) = body"
  shows "\<exists>downloads01 downloads02.
           sequential_downloads s (replicate 50 url) = Inr downloads01
         \<and> asynchronous_downloads session order (replicate 50 url) = Some (Inr downloads02)
         \<and> length downloads01 = 50 \<and> length downloads02 = 50
         \<and> (\<forall>i<50. downloads01 ! i = body \<and> downloads02 ! i = body)
         \<and> downloads01 = downloads02"
proof -
  let ?urls = "replicate 50 url"
  have "\<forall>u\<in>set ?urls. \<exists>response. s u = Inr response"
    using assms(2) by simp
  from sequential_loop_filter [OF this, of "[]"] assms(2-4)
  have seq: "sequential_downloads s ?urls = Inr (replicate 50 body)"
    by (simp add: sequential_downloads_def)
  have c: "request_url_response_content session url = Inr body"
    using assms(5-7) by (simp add: request_url_response_content_def read_loop_concat)
  have order: "completion_order order (length ?urls)"
    using assms(1) by simp
  have "\<forall>u\<in>set ?urls. \<exists>v. request_url_response_content session u = Inr v"
    using c by simp
  from request_url_responses_Inr
         [where request_url = request_url_response_content and session = session,
          OF order this] c
  have asy: "asynchronous_downloads session order ?urls = Some (Inr (replicate 50 body))"
    by (simp add: asynchronous_downloads_def)
  from seq asy show ?thesis by simp
qed

theorem fifty_requests_equal_witness:
  "completion_order (rev [0..<50]) 50
   \<and> resp_ok \<lparr>resp_ok = True, resp_content = [0x7B, 0x7D]\<rparr>
   \<and> ok \<lparr>ok = True, content = [[0x7B], [0x7D]], json = Inr (JDict [])\<rparr>
   \<and> concat (content \<lparr>ok = True, content = [[0x7B], [0x7D]], json = Inr (JDict [])\<rparr>)
       = resp_content \<lparr>resp_ok = True, resp_content = [0x7B, 0x7D]\<rparr>
   \<and> (\<exists>downloads.
         sequential_downloads
           (\<lambda>url. Inr \<lparr>resp_ok = True, resp_content = [0x7B, 0x7D]\<rparr>)
           (replicate 50 ''https://jsonplaceholder.typicode.com/todos/1'') = Inr downloads
       \<and> asynchronous_downloads
           (\<lambda>url. Inr \<lparr>ok = True, content = [[0x7B], [0x7D]], json = Inr (JDict [])\<rparr>)
           (rev [0..<50]) (replicate 50 ''https://jsonplaceholder.typicode.com/todos/1'')
         = Some (Inr downloads)
       \<and> length downloads = 50)"
proof -
  have order: "completion_order (rev [0..<50]) 50"
    by (simp add: completion_order_def)
  from fifty_requests_equal
         [of "rev [0..<50]" "\<lambda>url. Inr \<lparr>resp_ok = True, resp_content = [0x7B, 0x7D]\<rparr>"
             "''https://jsonplaceholder.typicode.com/todos/1''"
             "\<lparr>resp_ok = True, resp_content = [0x7B, 0x7D]\<rparr>" "[0x7B, 0x7D]"
             "\<lambda>url. Inr \<lparr>ok = True, content = [[0x7B], [0x7D]], json = Inr (JDict [])\<rparr>"
             "\<lparr>ok = True, content = [[0x7B], [0x7D]], json = Inr (JDict [])\<rparr>",
          OF order]
  obtain downloads01 downloads02 where
    "sequential_downloads (\<lambda>url. Inr \<lparr>resp_ok = True, resp_content = [0x7B, 0x7D]\<rparr>)
       (replicate 50 ''https://jsonplaceholder.typicode.com/todos/1'') = Inr downloads01"
    "asynchronous_downloads
       (\<lambda>url. Inr \<lparr>ok = True, content = [[0x7B], [0x7D]], json = Inr (JDict [])\<rparr>)
       (rev [0..<50]) (replicate 50 ''https://jsonplaceholder.typicode.com/todos/1'')
     = Some (Inr downloads02)"
    "length downloads01 = 50" "downloads01 = downloads02"
    by auto
  with order show ?thesis by simp
qed

text \<open>
  C7. On a response with a success status the byte-content reader returns the chunks of
  its reads, up to the zero-byte read that reports the end of the stream, concatenated
  in order; that is the whole body.
\<close>

theorem request_url_response_content_full_body:
  assumes "session url = Inr response" and "ok response"
  shows "request_url_response_content session url
           = Inr (concat (chunks_until_eof 1024 (content response)))
       \<and> concat (chunks_until_eof 1024 (content response)) = concat (content response)"
  using assms
  by (simp add: request_url_response_content_def read_loop_concat chunks_until_eof_concat)

theorem request_url_response_content_full_body_witness:
  "ok \<lparr>ok = True, content = [replicate 1500 0x41, [], [0x42, 0x43]], json = Inl JSONDecodeError\<rparr>
   \<and> request_url_response_content
         (\<lambda>url. Inr \<lparr>ok = True, content = [replicate 1500 0x41, [], [0x42, 0x43]],
                      json = Inl JSONDecodeError\<rparr>) ''u''
       = Inr (replicate 1500 0x41 @ [0x42, 0x43])
   \<and> chunks_until_eof 1024 [replicate 1500 0x41, [], [0x42, 0x43]]
       = [replicate 1024 0x41, replicate 476 0x41, [0x42, 0x43]]"
proof -
  let ?response = "\<lparr>ok = True, content = [replicate 1500 0x41, [], [0x42, 0x43 :: byte]],
                     json = Inl JSONDecodeError\<rparr>"
  have chunks: "chunks_until_eof 1024 [replicate 1500 0x41, [], [0x42, 0x43 :: byte]]
          = [replicate 1024 0x41, replicate 476 0x41, [0x42, 0x43]]"
    by (simp add: chunks_until_eof.simps)
  from request_url_response_content_full_body [of "\<lambda>url. Inr ?response" "''u''" ?response]
  have "request_url_response_content (\<lambda>url. Inr ?response) ''u''
          = Inr (replicate 1500 0x41 @ [0x42, 0x43])"
    by simp
  with chunks show ?thesis by simp
qed

text \<open>
  C10. The byte-content reader returns the empty buffer for a response with a
  non-success status and for a successful response with an empty body alike: the two
  return values are equal.
\<close>

theorem empty_body_same_as_failure:
  assumes "session failed_url = Inr response" and "\<not> ok response"
    and "session empty_url = Inr response'" and "ok response'"
    and "concat (content response') = []"
  shows "request_url_response_content session failed_url = Inr []
       \<and> request_url_response_content session empty_url = Inr []
       \<and> request_url_response_content session failed_url
           = request_url_response_content session empty_url"
  using assms by (simp add: request_url_response_content_def read_loop_concat)

theorem empty_body_same_as_failure_witness:
  "\<not> ok \<lparr>ok = False, content = [[0x34, 0x30, 0x34]], json = Inr JNull\<rparr>
   \<and> ok \<lparr>ok = True, content = [], json = Inr JNull\<rparr>
   \<and> request_url_response_content
         (\<lambda>url. if url = ''missing''
                 then Inr \<lparr>ok = False, content = [[0x34, 0x30, 0x34]], json = Inr JNull\<rparr>
                 else Inr \<lparr>ok = True, content = [], json = Inr JNull\<rparr>) ''missing''
       = request_url_response_content
         (\<lambda>url. if url = ''missing''
                 then Inr \<lparr>ok = False, content = [[0x34, 0x30, 0x34]], json = Inr JNull\<rparr>
                 else Inr \<lparr>ok = True, content = [], json = Inr JNull\<rparr>) ''empty''"
  using empty_body_same_as_failure
          [of "\<lambda>url. if url = ''missing''
                 then Inr \<lparr>ok = False, content = [[0x34, 0x30, 0x34]], json = Inr JNull\<rparr>
                 else Inr \<lparr>ok = True, content = [], json = Inr JNull\<rparr>"
              "''missing''" "\<lparr>ok = False, content = [[0x34, 0x30, 0x34]], json = Inr JNull\<rparr>"
              "''empty''" "\<lparr>ok = True, content = [], json = Inr JNull\<rparr>"]
  by simp

text \<open>The definitions that make up the \<^verbatim>\<open>csv\<close> reader, for evaluating it on a given text.\<close>

lemmas csv_defs =
  csv_reader_list_def parse_process_char_def start_field_def parse_reset_def
  parse_save_field_def parse_add_char_def newline_or_eol_def after_line_def
  quotechar_def field_limit_def

text \<open>
  C8. On a successful response whose body decodes as UTF-8 to the two lines \<^verbatim>\<open>a,b\<close> and
  \<^verbatim>\<open>c,d\<close>, separated by a newline, the row-table reader with the delimiter \<^verbatim>\<open>,\<close>
  returns the rows \<^verbatim>\<open>[["a","b"],["c","d"]]\<close>.
\<close>

theorem request_url_csv_list_rows:
  assumes "session url = Inr response" and "ok response"
    and "utf8_decode (concat (content response)) = Inr (py ''a,b\<newline>c,d'')"
  shows "request_url_csv_list session url (py '','')
           = Inr [[py ''a'', py ''b''], [py ''c'', py ''d'']]"
proof -
  have lines: "splitlines (py ''a,b\<newline>c,d'') = [py ''a,b'', py ''c,d'']"
    by (simp add: py_def splitlines_def linebreak_def)
  have rows: "csv_reader_list [py ''a,b'', py ''c,d''] (py '','')
                = Inr [[py ''a'', py ''b''], [py ''c'', py ''d'']]"
    by (simp add: py_def csv_defs)
  from assms lines rows show ?thesis
    by (simp add: request_url_csv_list_def read_loop_concat)
qed

theorem request_url_csv_list_rows_witness:
  "ok \<lparr>ok = True, content = [[0x61, 0x2C], [0x62, 0x0A, 0x63], [0x2C, 0x64]],
       json = Inl ContentTypeError\<rparr>
   \<and> utf8_decode (concat [[0x61, 0x2C], [0x62, 0x0A, 0x63], [0x2C, 0x64]])
       = Inr (py ''a,b\<newline>c,d'')
   \<and> request_url_csv_list
         (\<lambda>url. Inr \<lparr>ok = True, content = [[0x61, 0x2C], [0x62, 0x0A, 0x63], [0x2C, 0x64]],
                      json = Inl ContentTypeError\<rparr>) ''u'' [0x2C]
       = Inr [[[0x61], [0x62]], [[0x63], [0x64]]]"
proof -
  let ?response = "\<lparr>ok = True, content = [[0x61, 0x2C], [0x62, 0x0A, 0x63], [0x2C, 0x64 :: byte]],
                     json = Inl ContentTypeError\<rparr>"
  have decoded: "utf8_decode (concat (content ?response)) = Inr (py ''a,b\<newline>c,d'')"
    by (simp add: then_rest_def py_def)
  from request_url_csv_list_rows [of "\<lambda>url. Inr ?response" "''u''" ?response, OF refl _ decoded]
    decoded
  show ?thesis by (simp add: py_def)
qed

text \<open>
  C9. On a successful response whose body decodes to \<^verbatim>\<open>a;b\<close>, the row-table reader with
  the delimiter \<^verbatim>\<open>;\<close> returns \<^verbatim>\<open>[["a","b"]]\<close>, and with its default delimiter, the
  comma, it returns \<^verbatim>\<open>[["a;b"]]\<close>.
\<close>

theorem request_url_csv_list_delimiter:
  assumes "session url = Inr response" and "ok response"
    and "utf8_decode (concat (content response)) = Inr (py ''a;b'')"
  shows "request_url_csv_list session url (py '';'') = Inr [[py ''a'', py ''b'']]
       \<and> request_url_csv_list session url default_delimiter = Inr [[py ''a;b'']]"
proof -
  have lines: "splitlines (py ''a;b'') = [py ''a;b'']"
    by (simp add: py_def splitlines_def linebreak_def)
  have semicolon: "csv_reader_list [py ''a;b''] (py '';'') = Inr [[py ''a'', py ''b'']]"
    by (simp add: py_def csv_defs)
  have comma: "csv_reader_list [py ''a;b''] default_delimiter = Inr [[py ''a;b'']]"
    by (simp add: py_def default_delimiter_def csv_defs)
  from assms lines semicolon comma show ?thesis
    by (simp add: request_url_csv_list_def read_loop_concat)
qed

theorem request_url_csv_list_delimiter_witness:
  "ok \<lparr>ok = True, content = [[0x61], [0x3B, 0x62]], json = Inl ContentTypeError\<rparr>
   \<and> utf8_decode (concat [[0x61], [0x3B, 0x62]]) = Inr (py ''a;b'')
   \<and> request_url_csv_list
         (\<lambda>url. Inr \<lparr>ok = True, content = [[0x61], [0x3B, 0x62]], json = Inl ContentTypeError\<rparr>)
         ''u'' [0x3B]
       = Inr [[[0x61], [0x62]]]
   \<and> request_url_csv_list
         (\<lambda>url. Inr \<lparr>ok = True, content = [[0x61], [0x3B, 0x62]], json = Inl ContentTypeError\<rparr>)
         ''u'' default_delimiter
       = Inr [[[0x61, 0x3B, 0x62]]]"
proof -
  let ?response = "\<lparr>ok = True, content = [[0x61], [0x3B, 0x62 :: byte]],
                     json = Inl ContentTypeError\<rparr>"
  have decoded: "utf8_decode (concat (content ?response)) = Inr (py ''a;b'')"
    by (simp add: then_rest_def py_def)
  from request_url_csv_list_delimiter
         [of "\<lambda>url. Inr ?response" "''u''" ?response, OF refl _ decoded] decoded
  show ?thesis by (simp add: py_def)
qed

end
